theory Spec2Isabelle
  imports Main
begin

section \<open>Values, objects and the object store\<close>

text \<open>
  The reducers of \<^verbatim>\<open>src/reducers/todos.js\<close> and the selector of
  \<^verbatim>\<open>src/containers/VisibleTodoList.js\<close> work on Immutable.js values: a todo is a
  \<^verbatim>\<open>Record\<close>, the todos are a \<^verbatim>\<open>List\<close> of such records, the application state is a
  \<^verbatim>\<open>Record\<close> of that list and a string. The properties of interest compare these values
  with JavaScript's \<^verbatim>\<open>===\<close>, which on objects is identity of reference. The model therefore
  keeps an explicit store: an object lives at an address, a JavaScript value is either
  \<^verbatim>\<open>undefined\<close> or a reference to an object, and \<^verbatim>\<open>===\<close> on values is equality of
  \<open>val\<close>. Objects are never updated in place; allocation appends to the store, so the
  address of a new object is the length of the store before the allocation.
\<close>

type_synonym ref = nat

datatype val = Undefined | Ref ref

text \<open>
  \<^verbatim>\<open>TodoRecord = Record({ id: null, text: '', completed: false })\<close> with its three
  fields, an Immutable.js \<^verbatim>\<open>List\<close> with its elements in order, and the state record
  \<^verbatim>\<open>InitialState = Record({ todos: List(), visibilityFilter: 'SHOW_ALL' })\<close>.
\<close>

datatype obj =
    TodoRecord int string bool
  | ListOf "val list"
  | InitialState val string

type_synonym heap = "obj list"

datatype error = TypeError | Error string | InvalidNextState

definition lookup :: "heap \<Rightarrow> val \<Rightarrow> obj option" where
  "lookup h v = (case v of Undefined \<Rightarrow> None
                 | Ref p \<Rightarrow> if p < length h then Some (h ! p) else None)"

definition alloc :: "heap \<Rightarrow> obj \<Rightarrow> val \<times> heap" where
  "alloc h ob = (Ref (length h), h @ [ob])"

text \<open>
  Immutable.js keeps one shared empty \<^verbatim>\<open>List\<close>: \<^verbatim>\<open>List()\<close> and every list built from
  an empty sequence are that same object. It lives at address 0 of every store.
\<close>

definition EMPTY_LIST :: val where
  "EMPTY_LIST = Ref 0"

definition empty_heap :: heap where
  "empty_heap = [ListOf []]"

text \<open>
  The store once the root reducer has made the initial state from it: the state record
  with the shared empty list and the filter \<^verbatim>\<open>SHOW_ALL\<close>, at address 1.
\<close>

definition init_heap :: heap where
  "init_heap = empty_heap @ [InitialState EMPTY_LIST ''SHOW_ALL'']"

text \<open>
  Actions are plain objects with a \<^verbatim>\<open>type\<close> string; the reducers read \<^verbatim>\<open>action.id\<close>,
  \<^verbatim>\<open>action.text\<close> and \<^verbatim>\<open>action.filter\<close> and ignore every other property.
\<close>

record action =
  type_a :: string
  id_a :: int
  text_a :: string
  filter_a :: string

section \<open>The Immutable.js operations the program calls\<close>

text \<open>
  These follow Immutable.js 3.x, the release current when the program was written.
  \<^item> \<^verbatim>\<open>record.set(key, value)\<close> returns the receiver when the field already holds the
    value and a new record otherwise.
  \<^item> \<^verbatim>\<open>list.push(value)\<close> returns a new list.
  \<^item> \<^verbatim>\<open>list.map(f)\<close> and \<^verbatim>\<open>list.filter(p)\<close> visit the elements in order and build a
    list from the resulting sequence: the shared empty list when that sequence is empty,
    a new list otherwise. Neither compares the result with the receiver.
  Reading a field of \<^verbatim>\<open>undefined\<close> raises a \<^verbatim>\<open>TypeError\<close>; the model raises it as well
  for a reference that does not hold an object of the expected kind.
\<close>

definition Record_set_completed :: "heap \<Rightarrow> val \<Rightarrow> bool \<Rightarrow> error + val \<times> heap" where
  "Record_set_completed h r v =
     (case lookup h r of
        Some (TodoRecord i t c) \<Rightarrow>
          if c = v then Inr (r, h) else Inr (alloc h (TodoRecord i t v))
      | _ \<Rightarrow> Inl TypeError)"

definition List_from :: "heap \<Rightarrow> val list \<Rightarrow> val \<times> heap" where
  "List_from h xs = (if xs = [] then (EMPTY_LIST, h) else alloc h (ListOf xs))"

definition List_push :: "heap \<Rightarrow> val \<Rightarrow> val \<Rightarrow> error + val \<times> heap" where
  "List_push h l v =
     (case lookup h l of
        Some (ListOf xs) \<Rightarrow> Inr (alloc h (ListOf (xs @ [v])))
      | _ \<Rightarrow> Inl TypeError)"

fun map_seq :: "(heap \<Rightarrow> val \<Rightarrow> error + val \<times> heap) \<Rightarrow> heap \<Rightarrow> val list
    \<Rightarrow> error + val list \<times> heap" where
  "map_seq f h [] = Inr ([], h)"
| "map_seq f h (x # xs) =
     (case f h x of
        Inl e \<Rightarrow> Inl e
      | Inr (y, h1) \<Rightarrow>
          (case map_seq f h1 xs of
             Inl e \<Rightarrow> Inl e
           | Inr (ys, h2) \<Rightarrow> Inr (y # ys, h2)))"

definition List_map :: "(heap \<Rightarrow> val \<Rightarrow> error + val \<times> heap) \<Rightarrow> heap \<Rightarrow> val
    \<Rightarrow> error + val \<times> heap" where
  "List_map f h l =
     (case lookup h l of
        Some (ListOf xs) \<Rightarrow>
          (case map_seq f h xs of
             Inl e \<Rightarrow> Inl e
           | Inr (ys, h1) \<Rightarrow> Inr (List_from h1 ys))
      | _ \<Rightarrow> Inl TypeError)"

fun filter_seq :: "(val \<Rightarrow> error + bool) \<Rightarrow> val list \<Rightarrow> error + val list" where
  "filter_seq p [] = Inr []"
| "filter_seq p (x # xs) =
     (case p x of
        Inl e \<Rightarrow> Inl e
      | Inr b \<Rightarrow>
          (case filter_seq p xs of
             Inl e \<Rightarrow> Inl e
           | Inr ys \<Rightarrow> Inr (if b then x # ys else ys)))"

definition List_filter :: "(val \<Rightarrow> error + bool) \<Rightarrow> heap \<Rightarrow> val \<Rightarrow> error + val \<times> heap" where
  "List_filter p h l =
     (case lookup h l of
        Some (ListOf xs) \<Rightarrow>
          (case filter_seq p xs of
             Inl e \<Rightarrow> Inl e
           | Inr ys \<Rightarrow> Inr (List_from h ys))
      | _ \<Rightarrow> Inl TypeError)"

section \<open>The reducers\<close>

text \<open>
  \<^verbatim>\<open>todo(state, action)\<close>, the nested reducer of one record. On \<^verbatim>\<open>ADD_TODO\<close> it
  ignores its state and makes a record with the action's id and text (\<^verbatim>\<open>completed\<close> keeps
  its default \<^verbatim>\<open>false\<close>); on \<^verbatim>\<open>TOGGLE_TODO\<close> it returns its state when the ids differ
  and otherwise \<^verbatim>\<open>state.set('completed', !state.completed)\<close>; on any other type it
  returns its state.
\<close>

definition todo :: "heap \<Rightarrow> val \<Rightarrow> action \<Rightarrow> error + val \<times> heap" where
  "todo h state a =
     (if type_a a = ''ADD_TODO'' then
        Inr (alloc h (TodoRecord (id_a a) (text_a a) False))
      else if type_a a = ''TOGGLE_TODO'' then
        (case lookup h state of
           Some (TodoRecord i t c) \<Rightarrow>
             if i \<noteq> id_a a then Inr (state, h)
             else Record_set_completed h state (\<not> c)
         | _ \<Rightarrow> Inl TypeError)
      else Inr (state, h))"

text \<open>
  \<^verbatim>\<open>todos(state, action)\<close>, the reducer of the list: \<^verbatim>\<open>state.push(todo(undefined, action))\<close>
  on \<^verbatim>\<open>ADD_TODO\<close>, \<^verbatim>\<open>state.map(t => todo(t, action))\<close> on \<^verbatim>\<open>TOGGLE_TODO\<close>, and its
  state on any other type.
\<close>

definition todos :: "heap \<Rightarrow> val \<Rightarrow> action \<Rightarrow> error + val \<times> heap" where
  "todos h state a =
     (if type_a a = ''ADD_TODO'' then
        (case todo h Undefined a of
           Inl e \<Rightarrow> Inl e
         | Inr (t, h1) \<Rightarrow> List_push h1 state t)
      else if type_a a = ''TOGGLE_TODO'' then
        List_map (\<lambda>h1 t. todo h1 t a) h state
      else Inr (state, h))"

text \<open>
  Modelled from the spec: the reducer \<^verbatim>\<open>./visibilityFilter\<close> that
  \<^verbatim>\<open>src/reducers/index.js\<close> imports is not among the sources. The spec says that
  \<^verbatim>\<open>SET_VISIBILITY_FILTER(filter)\<close> replaces the filter field and that an unrecognized
  action kind leaves the state as it is.
\<close>

definition visibilityFilter :: "string \<Rightarrow> action \<Rightarrow> string" where
  "visibilityFilter state a =
     (if type_a a = ''SET_VISIBILITY_FILTER'' then filter_a a else state)"

text \<open>
  \<^verbatim>\<open>todoApp = combineReducers({ todos, visibilityFilter }, InitialState)\<close>, the root
  reducer. \<^verbatim>\<open>combineReducers\<close> of redux-immutable starts from \<^verbatim>\<open>InitialState()\<close> when
  the state is \<^verbatim>\<open>undefined\<close>, runs each slice reducer on its field inside
  \<^verbatim>\<open>withMutations\<close>, refuses an \<^verbatim>\<open>undefined\<close> slice, and sets each field to the slice's
  result. \<^verbatim>\<open>withMutations\<close> returns the receiver when no \<^verbatim>\<open>set\<close> changed a field
  (each compared with \<^verbatim>\<open>===\<close>) and a new record otherwise.
\<close>

definition todoApp :: "heap \<Rightarrow> val \<Rightarrow> action \<Rightarrow> error + val \<times> heap" where
  "todoApp h inputState a =
     (case (if inputState = Undefined
            then alloc h (InitialState EMPTY_LIST ''SHOW_ALL'')
            else (inputState, h)) of
        (s, h0) \<Rightarrow>
          (case lookup h0 s of
             Some (InitialState ts vf) \<Rightarrow>
               (case todos h0 ts a of
                  Inl e \<Rightarrow> Inl e
                | Inr (ts', h1) \<Rightarrow>
                    if ts' = Undefined then Inl InvalidNextState
                    else if ts' = ts \<and> visibilityFilter vf a = vf then Inr (s, h1)
                    else Inr (alloc h1 (InitialState ts' (visibilityFilter vf a))))
           | _ \<Rightarrow> Inl TypeError))"

section \<open>The selector\<close>

text \<open>
  \<^verbatim>\<open>t.completed\<close> as the predicate of \<^verbatim>\<open>filter\<close> reads the record behind \<open>t\<close>.
\<close>

definition completed :: "heap \<Rightarrow> val \<Rightarrow> error + bool" where
  "completed h t =
     (case lookup h t of
        Some (TodoRecord i x c) \<Rightarrow> Inr c
      | _ \<Rightarrow> Inl TypeError)"

definition not_completed :: "heap \<Rightarrow> val \<Rightarrow> error + bool" where
  "not_completed h t =
     (case completed h t of Inl e \<Rightarrow> Inl e | Inr c \<Rightarrow> Inr (\<not> c))"

text \<open>
  \<^verbatim>\<open>getVisibleTodos(todos, filter)\<close>: a \<^verbatim>\<open>switch\<close> on the filter string, whose default
  branch throws \<^verbatim>\<open>new Error('Unknown filter: ' + filter)\<close>.
\<close>

definition getVisibleTodos :: "heap \<Rightarrow> val \<Rightarrow> string \<Rightarrow> error + val \<times> heap" where
  "getVisibleTodos h ts filter_s =
     (if filter_s = ''SHOW_ALL'' then Inr (ts, h)
      else if filter_s = ''SHOW_COMPLETED'' then List_filter (completed h) h ts
      else if filter_s = ''SHOW_ACTIVE'' then List_filter (not_completed h) h ts
      else Inl (Error (''Unknown filter: '' @ filter_s)))"

section \<open>The render gate of one item\<close>

text \<open>
  \<^verbatim>\<open>TodoList\<close> gives each \<^verbatim>\<open>Todo\<close> the props \<^verbatim>\<open>todo={todo}\<close> and
  \<^verbatim>\<open>onClick={onTodoClick}\<close>. \<^verbatim>\<open>Todo\<close> is exported as
  \<^verbatim>\<open>onlyUpdateForKeys(['todo'])(Todo)\<close>: it is redrawn exactly when the \<^verbatim>\<open>todo\<close> prop
  of the next props is not \<^verbatim>\<open>===\<close> to that of the previous ones.
\<close>

record props =
  onClick :: val
  todo_p :: val

definition TodoList :: "val \<Rightarrow> val list \<Rightarrow> props list" where
  "TodoList onTodoClick ts = map (\<lambda>t. \<lparr>onClick = onTodoClick, todo_p = t\<rparr>) ts"

definition shouldRedraw :: "props \<Rightarrow> props \<Rightarrow> bool" where
  "shouldRedraw prev nxt = (todo_p prev \<noteq> todo_p nxt)"

section \<open>Reading the store\<close>

text \<open>
  What the properties below say about a store: the fields of the record behind a value,
  that a value is a todo record, that a value is a list of todo records (in a store that
  holds the shared empty list), and that a value is a state record whose \<^verbatim>\<open>todos\<close>
  field is such a list. \<open>toggled h h' i t t'\<close> relates an element \<open>t\<close> of the old list
  to the element \<open>t'\<close> at the same position after \<^verbatim>\<open>TOGGLE_TODO\<close> with id \<open>i\<close>: the
  same reference when the ids differ, and otherwise a reference that the old store \<open>h\<close>
  does not hold, to a record with the same id and text and \<^verbatim>\<open>completed\<close> negated.
\<close>

definition todo_fields :: "heap \<Rightarrow> val \<Rightarrow> (int \<times> string \<times> bool) option" where
  "todo_fields h t =
     (case lookup h t of Some (TodoRecord i x c) \<Rightarrow> Some (i, x, c) | _ \<Rightarrow> None)"

definition is_todo :: "heap \<Rightarrow> val \<Rightarrow> bool" where
  "is_todo h t = (todo_fields h t \<noteq> None)"

definition todo_id :: "heap \<Rightarrow> val \<Rightarrow> int option" where
  "todo_id h t = (case todo_fields h t of None \<Rightarrow> None | Some (i, x, c) \<Rightarrow> Some i)"

definition toggled :: "heap \<Rightarrow> heap \<Rightarrow> int \<Rightarrow> val \<Rightarrow> val \<Rightarrow> bool" where
  "toggled h h' i t t' =
     (case todo_fields h t of
        None \<Rightarrow> False
      | Some (j, x, c) \<Rightarrow>
          if j \<noteq> i then t' = t
          else lookup h t' = None \<and> todo_fields h' t' = Some (j, x, \<not> c))"

definition todo_list :: "heap \<Rightarrow> val \<Rightarrow> val list \<Rightarrow> bool" where
  "todo_list h l xs =
     (lookup h EMPTY_LIST = Some (ListOf []) \<and> lookup h l = Some (ListOf xs) \<and>
      list_all (is_todo h) xs)"

definition snapshot :: "heap \<Rightarrow> val \<Rightarrow> val \<Rightarrow> string \<Rightarrow> val list \<Rightarrow> bool" where
  "snapshot h s l vf xs = (lookup h s = Some (InitialState l vf) \<and> todo_list h l xs)"

text \<open>
  Two concrete stores: the todos \<^verbatim>\<open>[{id:1,text:'a'},{id:2,text:'b',completed:true}]\<close> under
  the filter \<^verbatim>\<open>SHOW_ALL\<close>, and a list in which two records share the id 7.
\<close>

definition ex_heap :: heap where
  "ex_heap =
     [ListOf [], TodoRecord 1 ''a'' False, TodoRecord 2 ''b'' True,
      ListOf [Ref 1, Ref 2], InitialState (Ref 3) ''SHOW_ALL'']"

definition dup_heap :: heap where
  "dup_heap =
     [ListOf [], TodoRecord 7 ''a'' False, TodoRecord 7 ''b'' True, TodoRecord 8 ''c'' False,
      ListOf [Ref 1, Ref 2, Ref 3], InitialState (Ref 4) ''SHOW_ALL'']"

text \<open>The action objects of the three kinds, and one of no recognized kind.\<close>

definition TOGGLE_TODO :: "int \<Rightarrow> action" where
  "TOGGLE_TODO i = \<lparr>type_a = ''TOGGLE_TODO'', id_a = i, text_a = [], filter_a = []\<rparr>"

definition ADD_TODO :: "int \<Rightarrow> string \<Rightarrow> action" where
  "ADD_TODO i t = \<lparr>type_a = ''ADD_TODO'', id_a = i, text_a = t, filter_a = []\<rparr>"

definition SET_VISIBILITY_FILTER :: "string \<Rightarrow> action" where
  "SET_VISIBILITY_FILTER f =
     \<lparr>type_a = ''SET_VISIBILITY_FILTER'', id_a = 0, text_a = [], filter_a = f\<rparr>"

definition OTHER_ACTION :: "string \<Rightarrow> action" where
  "OTHER_ACTION ty = \<lparr>type_a = ty, id_a = 0, text_a = [], filter_a = []\<rparr>"

section \<open>Allocation only extends the store\<close>

lemma lookup_append: "lookup h v = Some ob \<Longrightarrow> lookup (h @ hs) v = Some ob"
  by (auto simp: lookup_def nth_append split: val.splits if_splits)

lemma lookup_new: "lookup (h @ ob # hs) (Ref (length h)) = Some ob"
  by (simp add: lookup_def)

lemma lookup_fresh: "length h \<le> p \<Longrightarrow> lookup h (Ref p) = None"
  by (simp add: lookup_def)

lemma todo_fields_append: "todo_fields h t = Some f \<Longrightarrow> todo_fields (h @ hs) t = Some f"
  by (auto simp: todo_fields_def lookup_append split: option.splits obj.splits)

lemma is_todo_append: "is_todo h t \<Longrightarrow> is_todo (h @ hs) t"
  by (auto simp: is_todo_def dest: todo_fields_append)

lemma toggled_append:
  assumes "toggled (h @ e) (h @ e @ hs) i t t'" and "is_todo h t"
  shows "toggled h (h @ e @ hs) i t t'"
proof -
  from assms(2) obtain j x c where f: "todo_fields h t = Some (j, x, c)"
    by (auto simp: is_todo_def)
  then have f': "todo_fields (h @ e) t = Some (j, x, c)"
    by (rule todo_fields_append)
  have "lookup (h @ e) t' = None \<Longrightarrow> lookup h t' = None"
    using lookup_append [of h t' _ e] by (cases "lookup h t'") auto
  with assms(1) f f' show ?thesis
    by (auto simp: toggled_def split: if_splits)
qed

lemma todo_toggle:
  assumes "type_a a = ''TOGGLE_TODO''" and "todo_fields h t = Some (i, x, c)"
  shows "todo h t a =
    (if i \<noteq> id_a a then Inr (t, h) else Inr (Ref (length h), h @ [TodoRecord i x (\<not> c)]))"
  using assms
  by (auto simp: todo_def todo_fields_def Record_set_completed_def alloc_def
      split: option.splits obj.splits)

lemma map_seq_toggle:
  assumes "type_a a = ''TOGGLE_TODO''" and "list_all (is_todo h) xs"
  shows "\<exists>ys hs. map_seq (\<lambda>h1 t. todo h1 t a) h xs = Inr (ys, h @ hs) \<and>
           length ys = length xs \<and>
           (\<forall>j<length xs. toggled h (h @ hs) (id_a a) (xs ! j) (ys ! j))"
  using assms(2)
proof (induction xs arbitrary: h)
  case Nil
  then show ?case by simp
next
  case (Cons t ts)
  from Cons.prems obtain i x c where f: "todo_fields h t = Some (i, x, c)"
    by (auto simp: is_todo_def)
  from Cons.prems have ts: "list_all (is_todo h) ts" by simp
  show ?case
  proof (cases "i = id_a a")
    case False
    with f assms(1) have step: "todo h t a = Inr (t, h)"
      by (simp add: todo_toggle)
    from Cons.IH [OF ts] obtain ys hs where
      r: "map_seq (\<lambda>h1 t. todo h1 t a) h ts = Inr (ys, h @ hs)"
      and len: "length ys = length ts"
      and tg: "\<forall>j<length ts. toggled h (h @ hs) (id_a a) (ts ! j) (ys ! j)"
      by blast
    have t0: "toggled h (h @ hs) (id_a a) t t"
      using f False by (simp add: toggled_def)
    have "\<forall>j<length (t # ts). toggled h (h @ hs) (id_a a) ((t # ts) ! j) ((t # ys) ! j)"
      using t0 tg by (auto simp: nth_Cons split: nat.splits)
    with step r len show ?thesis by auto
  next
    case True
    let ?n = "TodoRecord i x (\<not> c)"
    from True f assms(1) have step: "todo h t a = Inr (Ref (length h), h @ [?n])"
      by (simp add: todo_toggle)
    from ts have ts': "list_all (is_todo (h @ [?n])) ts"
      by (auto simp: list_all_iff intro: is_todo_append)
    from Cons.IH [OF ts'] obtain ys hs where
      r: "map_seq (\<lambda>h1 t. todo h1 t a) (h @ [?n]) ts = Inr (ys, (h @ [?n]) @ hs)"
      and len: "length ys = length ts"
      and tg: "\<forall>j<length ts. toggled (h @ [?n]) ((h @ [?n]) @ hs) (id_a a) (ts ! j) (ys ! j)"
      by blast
    have t0: "toggled h (h @ ?n # hs) (id_a a) t (Ref (length h))"
      using f True by (simp add: toggled_def lookup_fresh todo_fields_def lookup_new)
    have tj: "toggled h (h @ ?n # hs) (id_a a) (ts ! j) (ys ! j)" if "j < length ts" for j
    proof -
      from that tg have "toggled (h @ [?n]) (h @ [?n] @ hs) (id_a a) (ts ! j) (ys ! j)"
        by simp
      moreover from that ts have "is_todo h (ts ! j)"
        by (simp add: list_all_length)
      ultimately show ?thesis
        using toggled_append [of h "[?n]" hs] by simp
    qed
    have "\<forall>j<length (t # ts).
        toggled h (h @ ?n # hs) (id_a a) ((t # ts) ! j) ((Ref (length h) # ys) ! j)"
      using t0 tj by (auto simp: nth_Cons split: nat.splits)
    with step r len show ?thesis by auto
  qed
qed

lemma toggled_extend: "toggled h h' i t t' \<Longrightarrow> toggled h (h' @ e) i t t'"
  by (auto simp: toggled_def todo_fields_append split: option.splits if_splits)

lemma toggled_is_todo: "toggled h (h @ hs) i t t' \<Longrightarrow> is_todo (h @ hs) t'"
  by (auto simp: toggled_def is_todo_def todo_fields_append split: option.splits if_splits)

lemma todo_list_append: "todo_list h l xs \<Longrightarrow> todo_list (h @ hs) l xs"
  by (auto simp: todo_list_def lookup_append list_all_iff intro: is_todo_append)

lemma todos_toggle:
  assumes "type_a a = ''TOGGLE_TODO''" and "todo_list h l xs"
  shows "\<exists>l' ys hs. todos h l a = Inr (l', h @ hs) \<and> todo_list (h @ hs) l' ys \<and>
           length ys = length xs \<and>
           (\<forall>j<length xs. toggled h (h @ hs) (id_a a) (xs ! j) (ys ! j)) \<and>
           (if xs = [] then l' = EMPTY_LIST \<and> hs = [] else lookup h l' = None)"
proof -
  from assms(2) have e: "lookup h EMPTY_LIST = Some (ListOf [])"
    and l: "lookup h l = Some (ListOf xs)" and ok: "list_all (is_todo h) xs"
    by (simp_all add: todo_list_def)
  have red: "todos h l a =
      (case map_seq (\<lambda>h1 t. todo h1 t a) h xs of
         Inl e \<Rightarrow> Inl e | Inr (ys, h1) \<Rightarrow> Inr (List_from h1 ys))"
    using assms(1) l by (simp add: todos_def List_map_def)
  show ?thesis
  proof (cases "xs = []")
    case True
    with red e l show ?thesis
      by (simp add: List_from_def todo_list_def)
  next
    case False
    from map_seq_toggle [OF assms(1) ok] obtain ys hs where
      r: "map_seq (\<lambda>h1 t. todo h1 t a) h xs = Inr (ys, h @ hs)"
      and len: "length ys = length xs"
      and tg: "\<forall>j<length xs. toggled h (h @ hs) (id_a a) (xs ! j) (ys ! j)"
      by blast
    let ?l' = "Ref (length (h @ hs))"
    let ?hs' = "hs @ [ListOf ys]"
    from False len have ne: "ys \<noteq> []" by auto
    with red r have res: "todos h l a = Inr (?l', h @ ?hs')"
      by (simp add: List_from_def alloc_def)
    have tg': "\<forall>j<length xs. toggled h (h @ ?hs') (id_a a) (xs ! j) (ys ! j)"
      using tg toggled_extend [of h "h @ hs" _ _ _ "[ListOf ys]"] by simp
    have "is_todo (h @ ?hs') (ys ! j)" if "j < length ys" for j
      using tg' that len toggled_is_todo [of h ?hs'] by auto
    then have oky: "list_all (is_todo (h @ ?hs')) ys"
      by (simp add: list_all_length)
    have "lookup (h @ ?hs') ?l' = Some (ListOf ys)"
      using lookup_new [of "h @ hs" "ListOf ys" "[]"] by simp
    moreover have "lookup (h @ ?hs') EMPTY_LIST = Some (ListOf [])"
      using e by (rule lookup_append)
    ultimately have tl: "todo_list (h @ ?hs') ?l' ys"
      using oky by (simp add: todo_list_def)
    have "lookup h ?l' = None"
      by (simp add: lookup_fresh)
    with res tl len tg' False show ?thesis
      by (intro exI [of _ ?l'] exI [of _ ys] exI [of _ ?hs']) simp
  qed
qed

lemma todoApp_step:
  assumes "snapshot h s l vf xs" and "todos h l a = Inr (l', h1)" and "l' \<noteq> Undefined"
  shows "todoApp h s a =
           (if l' = l \<and> visibilityFilter vf a = vf then Inr (s, h1)
            else Inr (Ref (length h1), h1 @ [InitialState l' (visibilityFilter vf a)]))"
proof -
  from assms(1) have "lookup h s = Some (InitialState l vf)"
    by (simp add: snapshot_def)
  moreover from this have "s \<noteq> Undefined"
    by (auto simp: lookup_def)
  ultimately show ?thesis
    using assms(2,3) by (simp add: todoApp_def alloc_def)
qed


section \<open>Helper facts about the reducers\<close>

lemma store_initialization:
  "todoApp empty_heap Undefined (OTHER_ACTION ''@@redux/INIT'') = Inr (Ref 1, init_heap)"
  by (simp add: todoApp_def todos_def visibilityFilter_def OTHER_ACTION_def alloc_def
      lookup_def empty_heap_def init_heap_def EMPTY_LIST_def)

lemma init_snapshot: "snapshot init_heap (Ref 1) EMPTY_LIST ''SHOW_ALL'' []"
  by (simp add: snapshot_def todo_list_def init_heap_def empty_heap_def lookup_def
      EMPTY_LIST_def)

lemma ex_snapshot: "snapshot ex_heap (Ref 4) (Ref 3) ''SHOW_ALL'' [Ref 1, Ref 2]"
  by (simp add: snapshot_def todo_list_def ex_heap_def lookup_def EMPTY_LIST_def
      is_todo_def todo_fields_def)

lemma dup_snapshot: "snapshot dup_heap (Ref 5) (Ref 4) ''SHOW_ALL'' [Ref 1, Ref 2, Ref 3]"
  by (simp add: snapshot_def todo_list_def dup_heap_def lookup_def EMPTY_LIST_def
      is_todo_def todo_fields_def)

lemma todos_other:
  "type_a a \<noteq> ''ADD_TODO'' \<Longrightarrow> type_a a \<noteq> ''TOGGLE_TODO'' \<Longrightarrow> todos h l a = Inr (l, h)"
  by (simp add: todos_def)

lemma todos_add:
  assumes "type_a a = ''ADD_TODO''" and "lookup h l = Some (ListOf xs)"
  shows "todos h l a =
           Inr (Ref (Suc (length h)),
                h @ [TodoRecord (id_a a) (text_a a) False, ListOf (xs @ [Ref (length h)])])"
proof -
  have "lookup (h @ [TodoRecord (id_a a) (text_a a) False]) l = Some (ListOf xs)"
    using assms(2) by (rule lookup_append)
  with assms(1) show ?thesis
    by (simp add: todos_def todo_def alloc_def List_push_def)
qed

section \<open>The root reducer on the three kinds of action and on any other\<close>

text \<open>
  Claim C8. For every state snapshot and every action whose type is none of
  \<^verbatim>\<open>ADD_TODO\<close>, \<^verbatim>\<open>TOGGLE_TODO\<close> and \<^verbatim>\<open>SET_VISIBILITY_FILTER\<close>, the root reducer raises
  no error and returns the very snapshot it was given, with nothing allocated; so do the
  reducer of the list and the reducer of one record on their states.
\<close>

theorem unrecognized_action_identity:
  assumes "snapshot h s l vf xs"
    and "type_a a \<notin> {''ADD_TODO'', ''TOGGLE_TODO'', ''SET_VISIBILITY_FILTER''}"
  shows "todoApp h s a = Inr (s, h) \<and> todos h l a = Inr (l, h) \<and> todo h t a = Inr (t, h)"
proof -
  from assms(2) have ty: "type_a a \<noteq> ''ADD_TODO''" "type_a a \<noteq> ''TOGGLE_TODO''"
    "type_a a \<noteq> ''SET_VISIBILITY_FILTER''"
    by auto
  then have l: "todos h l a = Inr (l, h)"
    by (simp add: todos_other)
  from assms(1) have "l \<noteq> Undefined"
    by (auto simp: snapshot_def todo_list_def lookup_def)
  with todoApp_step [OF assms(1) l] ty have "todoApp h s a = Inr (s, h)"
    by (simp add: visibilityFilter_def)
  with l ty show ?thesis
    by (simp add: todo_def)
qed

theorem unrecognized_action_identity_witness:
  "snapshot ex_heap (Ref 4) (Ref 3) ''SHOW_ALL'' [Ref 1, Ref 2] \<and>
   type_a (OTHER_ACTION ''@@redux/INIT'')
     \<notin> {''ADD_TODO'', ''TOGGLE_TODO'', ''SET_VISIBILITY_FILTER''} \<and>
   todoApp ex_heap (Ref 4) (OTHER_ACTION ''@@redux/INIT'') = Inr (Ref 4, ex_heap)"
  using unrecognized_action_identity [OF ex_snapshot, of "OTHER_ACTION ''@@redux/INIT''"]
    ex_snapshot
  by (simp add: OTHER_ACTION_def)

text \<open>
  Claim C9. For every state snapshot and every filter value \<open>f\<close>, reducing
  \<^verbatim>\<open>SET_VISIBILITY_FILTER\<close> with \<open>f\<close> gives a snapshot whose filter is \<open>f\<close> and whose
  \<^verbatim>\<open>todos\<close> field is the same reference as before, to the same elements; every object of
  the old store is kept. The snapshot itself is the old one exactly when \<open>f\<close> is the
  filter it already had.
\<close>

theorem set_visibility_filter_frame:
  assumes "snapshot h s l vf xs" and "type_a a = ''SET_VISIBILITY_FILTER''"
  shows "\<exists>s' hs. todoApp h s a = Inr (s', h @ hs) \<and>
           snapshot (h @ hs) s' l (filter_a a) xs \<and> (s' = s \<longleftrightarrow> filter_a a = vf)"
proof -
  from assms(2) have l: "todos h l a = Inr (l, h)"
    by (simp add: todos_other)
  from assms(1) have nu: "l \<noteq> Undefined" and s: "lookup h s = Some (InitialState l vf)"
    and tl: "todo_list h l xs"
    by (auto simp: snapshot_def todo_list_def lookup_def)
  have vf: "visibilityFilter vf a = filter_a a"
    using assms(2) by (simp add: visibilityFilter_def)
  show ?thesis
  proof (cases "filter_a a = vf")
    case True
    with todoApp_step [OF assms(1) l nu] vf have "todoApp h s a = Inr (s, h @ [])"
      by simp
    moreover from True assms(1) have "snapshot (h @ []) s l (filter_a a) xs"
      by simp
    ultimately show ?thesis
      using True by blast
  next
    case False
    let ?hs = "[InitialState l (filter_a a)]"
    from False todoApp_step [OF assms(1) l nu] vf
    have r: "todoApp h s a = Inr (Ref (length h), h @ ?hs)"
      by simp
    have "snapshot (h @ ?hs) (Ref (length h)) l (filter_a a) xs"
      using tl by (simp add: snapshot_def lookup_new todo_list_append)
    moreover from s have "Ref (length h) \<noteq> s"
      by (auto simp: lookup_def)
    ultimately show ?thesis
      using r False by blast
  qed
qed

theorem set_visibility_filter_frame_witness:
  "snapshot ex_heap (Ref 4) (Ref 3) ''SHOW_ALL'' [Ref 1, Ref 2] \<and>
   type_a (SET_VISIBILITY_FILTER ''SHOW_ACTIVE'') = ''SET_VISIBILITY_FILTER'' \<and>
   (\<exists>s' hs. todoApp ex_heap (Ref 4) (SET_VISIBILITY_FILTER ''SHOW_ACTIVE'')
              = Inr (s', ex_heap @ hs) \<and>
            snapshot (ex_heap @ hs) s' (Ref 3) ''SHOW_ACTIVE'' [Ref 1, Ref 2] \<and> s' \<noteq> Ref 4)"
  using set_visibility_filter_frame
    [OF ex_snapshot, of "SET_VISIBILITY_FILTER ''SHOW_ACTIVE''"] ex_snapshot
  by (simp add: SET_VISIBILITY_FILTER_def)

text \<open>
  Claim C7. For every state snapshot, reducing \<^verbatim>\<open>ADD_TODO\<close> with an id and a text gives
  a new snapshot with the same filter and a new list: the old elements, each the same
  reference as before and in the same order, followed by one reference that the old store
  did not hold, to a record with that id, that text and \<^verbatim>\<open>completed = false\<close>.
\<close>

theorem add_todo_appends:
  assumes "snapshot h s l vf xs" and "type_a a = ''ADD_TODO''"
  shows "\<exists>s' l' t hs. todoApp h s a = Inr (s', h @ hs) \<and> s' \<noteq> s \<and> l' \<noteq> l \<and>
           snapshot (h @ hs) s' l' vf (xs @ [t]) \<and> lookup h t = None \<and>
           todo_fields (h @ hs) t = Some (id_a a, text_a a, False)"
proof -
  let ?r = "TodoRecord (id_a a) (text_a a) False"
  let ?t = "Ref (length h)"
  let ?l' = "Ref (Suc (length h))"
  let ?s' = "Ref (Suc (Suc (length h)))"
  let ?h1 = "h @ [?r, ListOf (xs @ [?t])]"
  let ?hs = "[?r, ListOf (xs @ [?t]), InitialState ?l' vf]"
  from assms(1) have s: "lookup h s = Some (InitialState l vf)"
    and tl: "todo_list h l xs" and l: "lookup h l = Some (ListOf xs)"
    by (auto simp: snapshot_def todo_list_def)
  have ts: "todos h l a = Inr (?l', ?h1)"
    using assms(2) l by (rule todos_add)
  from l have ll: "?l' \<noteq> l"
    by (auto simp: lookup_def)
  from s have ss: "?s' \<noteq> s"
    by (auto simp: lookup_def)
  have vf: "visibilityFilter vf a = vf"
    using assms(2) by (simp add: visibilityFilter_def)
  from todoApp_step [OF assms(1) ts] ll vf
  have r: "todoApp h s a = Inr (?s', h @ ?hs)"
    by simp
  have f: "todo_fields (h @ ?hs) ?t = Some (id_a a, text_a a, False)"
    by (simp add: todo_fields_def lookup_new)
  have "list_all (is_todo (h @ ?hs)) xs"
    using tl by (auto simp: todo_list_def list_all_iff intro: is_todo_append)
  moreover have "is_todo (h @ ?hs) ?t"
    using f by (simp add: is_todo_def)
  ultimately have "list_all (is_todo (h @ ?hs)) (xs @ [?t])"
    by simp
  moreover have "lookup (h @ ?hs) ?l' = Some (ListOf (xs @ [?t]))"
    using lookup_new [of "h @ [?r]" "ListOf (xs @ [?t])" "[InitialState ?l' vf]"] by simp
  moreover have "lookup (h @ ?hs) ?s' = Some (InitialState ?l' vf)"
    using lookup_new [of "h @ [?r, ListOf (xs @ [?t])]" "InitialState ?l' vf" "[]"] by simp
  moreover have "lookup (h @ ?hs) EMPTY_LIST = Some (ListOf [])"
    using tl by (simp add: todo_list_def lookup_append)
  ultimately have sn: "snapshot (h @ ?hs) ?s' ?l' vf (xs @ [?t])"
    by (simp add: snapshot_def todo_list_def)
  have "lookup h ?t = None"
    by (simp add: lookup_fresh)
  with r ss ll sn f show ?thesis
    by blast
qed

theorem add_todo_appends_witness:
  "snapshot ex_heap (Ref 4) (Ref 3) ''SHOW_ALL'' [Ref 1, Ref 2] \<and>
   type_a (ADD_TODO 3 ''c'') = ''ADD_TODO'' \<and>
   (\<exists>s' l' t hs. todoApp ex_heap (Ref 4) (ADD_TODO 3 ''c'') = Inr (s', ex_heap @ hs) \<and>
      s' \<noteq> Ref 4 \<and> l' \<noteq> Ref 3 \<and>
      snapshot (ex_heap @ hs) s' l' ''SHOW_ALL'' ([Ref 1, Ref 2] @ [t]) \<and>
      lookup ex_heap t = None \<and> todo_fields (ex_heap @ hs) t = Some (3, ''c'', False))"
  using add_todo_appends [OF ex_snapshot, of "ADD_TODO 3 ''c''"] ex_snapshot
  by (simp add: ADD_TODO_def)


section \<open>Toggling\<close>

lemma todoApp_toggle:
  assumes "type_a a = ''TOGGLE_TODO''" and "snapshot h s l vf xs"
  shows "\<exists>s' l' ys hs. todoApp h s a = Inr (s', h @ hs) \<and> snapshot (h @ hs) s' l' vf ys \<and>
           length ys = length xs \<and>
           (\<forall>j<length xs. toggled h (h @ hs) (id_a a) (xs ! j) (ys ! j)) \<and>
           (xs \<noteq> [] \<longrightarrow> lookup h l' = None \<and> lookup h s' = None) \<and>
           (xs = [] \<and> l = EMPTY_LIST \<longrightarrow> s' = s \<and> hs = [])"
proof -
  from assms(2) have tl: "todo_list h l xs" and s: "lookup h s = Some (InitialState l vf)"
    by (simp_all add: snapshot_def)
  from todos_toggle [OF assms(1) tl] obtain l' ys hs where
    r: "todos h l a = Inr (l', h @ hs)" and tl': "todo_list (h @ hs) l' ys"
    and len: "length ys = length xs"
    and tg: "\<forall>j<length xs. toggled h (h @ hs) (id_a a) (xs ! j) (ys ! j)"
    and fr: "if xs = [] then l' = EMPTY_LIST \<and> hs = [] else lookup h l' = None"
    by blast
  from tl' have nu: "l' \<noteq> Undefined"
    by (auto simp: todo_list_def lookup_def)
  have vf: "visibilityFilter vf a = vf"
    using assms(1) by (simp add: visibilityFilter_def)
  note step = todoApp_step [OF assms(2) r nu, unfolded vf]
  show ?thesis
  proof (cases "l' = l")
    case True
    with fr tl have e: "xs = []"
      by (auto simp: todo_list_def split: if_splits)
    from True step have "todoApp h s a = Inr (s, h @ hs)"
      by simp
    moreover from s tl' True have "snapshot (h @ hs) s l' vf ys"
      by (simp add: snapshot_def lookup_append)
    ultimately show ?thesis
      using len tg e fr by (intro exI [of _ s] exI [of _ l'] exI [of _ ys] exI [of _ hs]) simp
  next
    case False
    let ?s' = "Ref (length (h @ hs))"
    let ?hs' = "hs @ [InitialState l' vf]"
    from False step have res: "todoApp h s a = Inr (?s', h @ ?hs')"
      by simp
    have "lookup (h @ ?hs') ?s' = Some (InitialState l' vf)"
      using lookup_new [of "h @ hs" "InitialState l' vf" "[]"] by simp
    moreover have "todo_list (h @ ?hs') l' ys"
      using todo_list_append [OF tl', of "[InitialState l' vf]"] by simp
    ultimately have sn: "snapshot (h @ ?hs') ?s' l' vf ys"
      by (simp add: snapshot_def)
    have tg': "\<forall>j<length xs. toggled h (h @ ?hs') (id_a a) (xs ! j) (ys ! j)"
      using tg toggled_extend [of h "h @ hs" _ _ _ "[InitialState l' vf]"] by simp
    have "lookup h ?s' = None"
      by (simp add: lookup_fresh)
    moreover have "xs = [] \<and> l = EMPTY_LIST \<longrightarrow> False"
      using fr False by auto
    ultimately show ?thesis
      using res sn len tg' fr
      by (intro exI [of _ ?s'] exI [of _ l'] exI [of _ ys] exI [of _ ?hs']) auto
  qed
qed

lemma toggled_other:
  "toggled h h' i t t' \<Longrightarrow> todo_id h t \<noteq> Some i \<Longrightarrow> t' = t"
  by (auto simp: toggled_def todo_id_def split: option.splits if_splits)

lemma toggled_match:
  "toggled h h' i t t' \<Longrightarrow> todo_fields h t = Some (i, x, c) \<Longrightarrow>
     lookup h t' = None \<and> todo_fields h' t' = Some (i, x, \<not> c) \<and> t' \<noteq> t"
  by (auto simp: toggled_def todo_fields_def split: option.splits if_splits)

lemma todo_id_Some:
  "todo_id h t = Some i \<longleftrightarrow> (\<exists>x c. todo_fields h t = Some (i, x, c))"
  by (auto simp: todo_id_def split: option.splits)

lemma filter_one_index:
  assumes "length (filter P xs) = 1"
  shows "\<exists>k<length xs. P (xs ! k) \<and> (\<forall>j<length xs. j \<noteq> k \<longrightarrow> \<not> P (xs ! j))"
proof -
  from assms have "card {i. i < length xs \<and> P (xs ! i)} = 1"
    by (simp add: length_filter_conv_card)
  then obtain k where k: "{i. i < length xs \<and> P (xs ! i)} = {k}"
    by (auto simp: card_1_singleton_iff)
  then have "k < length xs \<and> P (xs ! k)"
    by blast
  moreover from k have "\<forall>j<length xs. j \<noteq> k \<longrightarrow> \<not> P (xs ! j)"
    by blast
  ultimately show ?thesis
    by blast
qed

text \<open>
  Claim C2. For every state snapshot whose list holds exactly one record with the id of a
  \<^verbatim>\<open>TOGGLE_TODO\<close> action, reducing that action gives a new snapshot with the same filter
  and a list of the same length in which the element at the position \<open>k\<close> of that record
  is a reference the old store did not hold, to a record with the same id and text and
  \<^verbatim>\<open>completed\<close> negated, and the element at every other position is the same reference
  as before.
\<close>

theorem toggle_structural_sharing:
  assumes "snapshot h s l vf xs" and "type_a a = ''TOGGLE_TODO''"
    and "length (filter (\<lambda>t. todo_id h t = Some (id_a a)) xs) = 1"
  shows "\<exists>s' l' ys hs k x c. todoApp h s a = Inr (s', h @ hs) \<and> s' \<noteq> s \<and>
           snapshot (h @ hs) s' l' vf ys \<and> length ys = length xs \<and> k < length xs \<and>
           todo_fields h (xs ! k) = Some (id_a a, x, c) \<and>
           todo_fields (h @ hs) (ys ! k) = Some (id_a a, x, \<not> c) \<and>
           ys ! k \<noteq> xs ! k \<and> lookup h (ys ! k) = None \<and>
           (\<forall>j<length xs. j \<noteq> k \<longrightarrow> ys ! j = xs ! j)"
proof -
  from filter_one_index [OF assms(3)] obtain k where k: "k < length xs"
    and m: "todo_id h (xs ! k) = Some (id_a a)"
    and o: "\<forall>j<length xs. j \<noteq> k \<longrightarrow> todo_id h (xs ! j) \<noteq> Some (id_a a)"
    by blast
  from m obtain x c where f: "todo_fields h (xs ! k) = Some (id_a a, x, c)"
    by (auto simp: todo_id_Some)
  from todoApp_toggle [OF assms(2,1)] obtain s' l' ys hs where
    r: "todoApp h s a = Inr (s', h @ hs)" and sn: "snapshot (h @ hs) s' l' vf ys"
    and len: "length ys = length xs"
    and tg: "\<forall>j<length xs. toggled h (h @ hs) (id_a a) (xs ! j) (ys ! j)"
    and fr: "xs \<noteq> [] \<longrightarrow> lookup h l' = None \<and> lookup h s' = None"
    by blast
  from k have "xs \<noteq> []" by auto
  with fr assms(1) have ne: "s' \<noteq> s"
    by (auto simp: snapshot_def)
  from tg k f have nk: "lookup h (ys ! k) = None \<and>
      todo_fields (h @ hs) (ys ! k) = Some (id_a a, x, \<not> c) \<and> ys ! k \<noteq> xs ! k"
    using toggled_match by blast
  from tg o have "\<forall>j<length xs. j \<noteq> k \<longrightarrow> ys ! j = xs ! j"
    using toggled_other by blast
  with r ne sn len k f nk show ?thesis
    by blast
qed

theorem toggle_structural_sharing_witness:
  "snapshot ex_heap (Ref 4) (Ref 3) ''SHOW_ALL'' [Ref 1, Ref 2] \<and>
   type_a (TOGGLE_TODO 2) = ''TOGGLE_TODO'' \<and>
   length (filter (\<lambda>t. todo_id ex_heap t = Some (id_a (TOGGLE_TODO 2))) [Ref 1, Ref 2]) = 1 \<and>
   (\<exists>s' l' ys hs k x c. todoApp ex_heap (Ref 4) (TOGGLE_TODO 2) = Inr (s', ex_heap @ hs) \<and>
      s' \<noteq> Ref 4 \<and> snapshot (ex_heap @ hs) s' l' ''SHOW_ALL'' ys \<and>
      length ys = length [Ref 1, Ref 2 :: val] \<and> k < length [Ref 1, Ref 2 :: val] \<and>
      todo_fields ex_heap ([Ref 1, Ref 2] ! k) = Some (2, x, c) \<and>
      todo_fields (ex_heap @ hs) (ys ! k) = Some (2, x, \<not> c) \<and>
      ys ! k \<noteq> [Ref 1, Ref 2] ! k \<and> lookup ex_heap (ys ! k) = None \<and>
      (\<forall>j<length [Ref 1, Ref 2 :: val]. j \<noteq> k \<longrightarrow> ys ! j = [Ref 1, Ref 2] ! j))"
proof -
  have c: "length (filter (\<lambda>t. todo_id ex_heap t = Some (id_a (TOGGLE_TODO 2))) [Ref 1, Ref 2]) = 1"
    by (simp add: todo_id_def todo_fields_def lookup_def ex_heap_def TOGGLE_TODO_def)
  have t: "type_a (TOGGLE_TODO 2) = ''TOGGLE_TODO''"
    by (simp add: TOGGLE_TODO_def)
  have i: "id_a (TOGGLE_TODO 2) = 2"
    by (simp add: TOGGLE_TODO_def)
  show ?thesis
    using toggle_structural_sharing [OF ex_snapshot t c] ex_snapshot t c
    unfolding i by blast
qed


lemma ex_todo_list: "todo_list ex_heap (Ref 3) [Ref 1, Ref 2]"
  using ex_snapshot by (simp add: snapshot_def)

lemma dup_todo_list: "todo_list dup_heap (Ref 4) [Ref 1, Ref 2, Ref 3]"
  using dup_snapshot by (simp add: snapshot_def)

text \<open>
  Claim C1, as stated, fails. In the store \<open>ex_heap\<close> the snapshot at address 4 has the
  todos with ids 1 and 2. \<^verbatim>\<open>TOGGLE_TODO\<close> with id 3 matches neither, yet the reduction
  returns the snapshot at the new address 6, whose list is at the new address 5:
  \<^verbatim>\<open>state.map\<close> builds a list without comparing it with its receiver, so the
  \<^verbatim>\<open>todos\<close> field changes and the state record is rebuilt.
\<close>

theorem toggle_unmatched_rebuilds_counterexample:
  "snapshot ex_heap (Ref 4) (Ref 3) ''SHOW_ALL'' [Ref 1, Ref 2] \<and>
   todo_id ex_heap (Ref 1) = Some 1 \<and> todo_id ex_heap (Ref 2) = Some 2 \<and>
   todoApp ex_heap (Ref 4) (TOGGLE_TODO 3) =
     Inr (Ref 6, ex_heap @ [ListOf [Ref 1, Ref 2], InitialState (Ref 5) ''SHOW_ALL'']) \<and>
   Ref 6 \<noteq> Ref 4 \<and> Ref 5 \<noteq> Ref 3"
proof -
  have "todos ex_heap (Ref 3) (TOGGLE_TODO 3) = Inr (Ref 5, ex_heap @ [ListOf [Ref 1, Ref 2]])"
    by (simp add: todos_def List_map_def todo_def lookup_def ex_heap_def TOGGLE_TODO_def
        List_from_def alloc_def)
  from todoApp_step [OF ex_snapshot this] have
    "todoApp ex_heap (Ref 4) (TOGGLE_TODO 3) =
       Inr (Ref 6, ex_heap @ [ListOf [Ref 1, Ref 2], InitialState (Ref 5) ''SHOW_ALL''])"
    by (simp add: visibilityFilter_def TOGGLE_TODO_def ex_heap_def)
  moreover have "todo_id ex_heap (Ref 1) = Some 1 \<and> todo_id ex_heap (Ref 2) = Some 2"
    by (simp add: todo_id_def todo_fields_def lookup_def ex_heap_def)
  ultimately show ?thesis
    using ex_snapshot by simp
qed

text \<open>
  Claim C1, amended. Take a state snapshot and an action that changes no todo and does
  not change the filter: its type is not \<^verbatim>\<open>ADD_TODO\<close>; if it is \<^verbatim>\<open>TOGGLE_TODO\<close>, its
  id matches no record of the list; if it is \<^verbatim>\<open>SET_VISIBILITY_FILTER\<close>, its filter is the
  one the snapshot has. The reduction raises no error and returns a snapshot with the same
  filter whose list holds the same references in the same order, every old object kept.
  For every such action other than \<^verbatim>\<open>TOGGLE_TODO\<close> the snapshot returned is the one
  given, with the list it had, and nothing is allocated. For \<^verbatim>\<open>TOGGLE_TODO\<close> on a list
  that is not empty, the list and the snapshot are new values, not the ones given; on the
  shared empty list, the snapshot returned is the one given and nothing is allocated.
\<close>

theorem noop_reduction:
  assumes "snapshot h s l vf xs" and "type_a a \<noteq> ''ADD_TODO''"
    and "type_a a = ''TOGGLE_TODO'' \<longrightarrow> (\<forall>t\<in>set xs. todo_id h t \<noteq> Some (id_a a))"
    and "type_a a = ''SET_VISIBILITY_FILTER'' \<longrightarrow> filter_a a = vf"
  shows "\<exists>s' l' hs. todoApp h s a = Inr (s', h @ hs) \<and> snapshot (h @ hs) s' l' vf xs \<and>
           (type_a a \<noteq> ''TOGGLE_TODO'' \<longrightarrow> s' = s \<and> l' = l \<and> hs = []) \<and>
           (type_a a = ''TOGGLE_TODO'' \<and> xs \<noteq> [] \<longrightarrow>
              s' \<noteq> s \<and> l' \<noteq> l \<and> lookup h s' = None \<and> lookup h l' = None) \<and>
           (type_a a = ''TOGGLE_TODO'' \<and> xs = [] \<and> l = EMPTY_LIST \<longrightarrow> s' = s \<and> hs = [])"
proof (cases "type_a a = ''TOGGLE_TODO''")
  case True
  from todoApp_toggle [OF True assms(1)] obtain s' l' ys hs where
    r: "todoApp h s a = Inr (s', h @ hs)" and sn: "snapshot (h @ hs) s' l' vf ys"
    and len: "length ys = length xs"
    and tg: "\<forall>j<length xs. toggled h (h @ hs) (id_a a) (xs ! j) (ys ! j)"
    and fr: "xs \<noteq> [] \<longrightarrow> lookup h l' = None \<and> lookup h s' = None"
    and em: "xs = [] \<and> l = EMPTY_LIST \<longrightarrow> s' = s \<and> hs = []"
    by blast
  from True assms(3) have nm: "\<forall>t\<in>set xs. todo_id h t \<noteq> Some (id_a a)"
    by simp
  have "ys ! j = xs ! j" if "j < length xs" for j
    using that tg nm toggled_other [of h "h @ hs" "id_a a" "xs ! j" "ys ! j"] by simp
  with len have "ys = xs"
    by (simp add: nth_equalityI)
  moreover from fr assms(1) have "xs \<noteq> [] \<longrightarrow> s' \<noteq> s \<and> l' \<noteq> l"
    by (auto simp: snapshot_def todo_list_def)
  ultimately show ?thesis
    using True r sn fr em by blast
next
  case False
  with assms(2) have l: "todos h l a = Inr (l, h)"
    by (simp add: todos_other)
  from assms(1) have nu: "l \<noteq> Undefined"
    by (auto simp: snapshot_def todo_list_def lookup_def)
  from assms(4) have vf: "visibilityFilter vf a = vf"
    by (simp add: visibilityFilter_def)
  from todoApp_step [OF assms(1) l nu] vf have "todoApp h s a = Inr (s, h @ [])"
    by simp
  moreover from assms(1) have "snapshot (h @ []) s l vf xs"
    by simp
  ultimately show ?thesis
    using False by blast
qed

theorem noop_reduction_witness:
  "snapshot ex_heap (Ref 4) (Ref 3) ''SHOW_ALL'' [Ref 1, Ref 2] \<and>
   todo_id ex_heap (Ref 1) \<noteq> Some (id_a (TOGGLE_TODO 3)) \<and>
   todo_id ex_heap (Ref 2) \<noteq> Some (id_a (TOGGLE_TODO 3)) \<and>
   (\<exists>s' l' hs. todoApp ex_heap (Ref 4) (TOGGLE_TODO 3) = Inr (s', ex_heap @ hs) \<and>
      snapshot (ex_heap @ hs) s' l' ''SHOW_ALL'' [Ref 1, Ref 2] \<and> s' \<noteq> Ref 4 \<and> l' \<noteq> Ref 3) \<and>
   snapshot init_heap (Ref 1) EMPTY_LIST ''SHOW_ALL'' [] \<and>
   todoApp init_heap (Ref 1) (TOGGLE_TODO 3) = Inr (Ref 1, init_heap) \<and>
   filter_a (SET_VISIBILITY_FILTER ''SHOW_ALL'') = ''SHOW_ALL'' \<and>
   todoApp ex_heap (Ref 4) (SET_VISIBILITY_FILTER ''SHOW_ALL'') = Inr (Ref 4, ex_heap) \<and>
   todoApp ex_heap (Ref 4) (OTHER_ACTION ''@@redux/INIT'') = Inr (Ref 4, ex_heap)"
proof -
  have t: "type_a (TOGGLE_TODO 3) = ''TOGGLE_TODO''" "type_a (TOGGLE_TODO 3) \<noteq> ''ADD_TODO''"
    "type_a (TOGGLE_TODO 3) = ''SET_VISIBILITY_FILTER'' \<longrightarrow> filter_a (TOGGLE_TODO 3) = ''SHOW_ALL''"
    by (simp_all add: TOGGLE_TODO_def)
  have n: "todo_id ex_heap (Ref 1) \<noteq> Some (id_a (TOGGLE_TODO 3))"
    "todo_id ex_heap (Ref 2) \<noteq> Some (id_a (TOGGLE_TODO 3))"
    by (simp_all add: todo_id_def todo_fields_def lookup_def ex_heap_def TOGGLE_TODO_def)
  then have n': "type_a (TOGGLE_TODO 3) = ''TOGGLE_TODO'' \<longrightarrow>
      (\<forall>t\<in>set [Ref 1, Ref 2]. todo_id ex_heap t \<noteq> Some (id_a (TOGGLE_TODO 3)))"
    by simp
  have e: "type_a (TOGGLE_TODO 3) = ''TOGGLE_TODO'' \<longrightarrow>
      (\<forall>t\<in>set []. todo_id init_heap t \<noteq> Some (id_a (TOGGLE_TODO 3)))"
    by simp
  have sv: "type_a (SET_VISIBILITY_FILTER ''SHOW_ALL'') \<noteq> ''ADD_TODO''"
    "type_a (SET_VISIBILITY_FILTER ''SHOW_ALL'') \<noteq> ''TOGGLE_TODO''"
    "filter_a (SET_VISIBILITY_FILTER ''SHOW_ALL'') = ''SHOW_ALL''"
    by (simp_all add: SET_VISIBILITY_FILTER_def)
  have ot: "type_a (OTHER_ACTION ''@@redux/INIT'') \<noteq> ''ADD_TODO''"
    "type_a (OTHER_ACTION ''@@redux/INIT'') \<noteq> ''TOGGLE_TODO''"
    "type_a (OTHER_ACTION ''@@redux/INIT'') \<noteq> ''SET_VISIBILITY_FILTER''"
    by (simp_all add: OTHER_ACTION_def)
  have a: "\<exists>s' l' hs. todoApp ex_heap (Ref 4) (TOGGLE_TODO 3) = Inr (s', ex_heap @ hs) \<and>
      snapshot (ex_heap @ hs) s' l' ''SHOW_ALL'' [Ref 1, Ref 2] \<and> s' \<noteq> Ref 4 \<and> l' \<noteq> Ref 3"
    using noop_reduction [OF ex_snapshot t(2) n' t(3)] t(1) by auto
  have b: "todoApp init_heap (Ref 1) (TOGGLE_TODO 3) = Inr (Ref 1, init_heap)"
    using noop_reduction [OF init_snapshot t(2) e t(3)] t(1) by auto
  have c: "todoApp ex_heap (Ref 4) (SET_VISIBILITY_FILTER ''SHOW_ALL'') = Inr (Ref 4, ex_heap)"
    using noop_reduction [OF ex_snapshot sv(1), of ] sv by auto
  have d: "todoApp ex_heap (Ref 4) (OTHER_ACTION ''@@redux/INIT'') = Inr (Ref 4, ex_heap)"
    using noop_reduction [OF ex_snapshot ot(1)] ot by auto
  from a b c d show ?thesis
    using ex_snapshot init_snapshot n sv(3) by simp
qed

text \<open>
  Claim C10. For every list of todo records, \<^verbatim>\<open>TOGGLE_TODO\<close> replaces the element at
  every position whose record has the action's id, however many there are, by a reference
  the old store did not hold, to a record with the same id and text and \<^verbatim>\<open>completed\<close>
  negated; the element at every other position is the same reference as before. In
  \<open>dup_heap\<close> two records share the id 7, and one \<^verbatim>\<open>TOGGLE_TODO\<close> with id 7 replaces
  both.
\<close>

theorem toggle_negates_every_match:
  assumes "todo_list h l xs" and "type_a a = ''TOGGLE_TODO''"
  shows "\<exists>l' ys hs. todos h l a = Inr (l', h @ hs) \<and> todo_list (h @ hs) l' ys \<and>
           length ys = length xs \<and>
           (\<forall>j<length xs. \<forall>i x c. todo_fields h (xs ! j) = Some (i, x, c) \<longrightarrow>
              (if i = id_a a
               then lookup h (ys ! j) = None \<and>
                    todo_fields (h @ hs) (ys ! j) = Some (i, x, \<not> c)
               else ys ! j = xs ! j))"
proof -
  from todos_toggle [OF assms(2,1)] obtain l' ys hs where
    r: "todos h l a = Inr (l', h @ hs)" and tl: "todo_list (h @ hs) l' ys"
    and len: "length ys = length xs"
    and tg: "\<forall>j<length xs. toggled h (h @ hs) (id_a a) (xs ! j) (ys ! j)"
    by blast
  have "\<forall>j<length xs. \<forall>i x c. todo_fields h (xs ! j) = Some (i, x, c) \<longrightarrow>
          (if i = id_a a
           then lookup h (ys ! j) = None \<and> todo_fields (h @ hs) (ys ! j) = Some (i, x, \<not> c)
           else ys ! j = xs ! j)"
    using tg by (auto simp: toggled_def)
  with r tl len show ?thesis
    by blast
qed

theorem toggle_negates_every_match_witness:
  "todo_list dup_heap (Ref 4) [Ref 1, Ref 2, Ref 3] \<and>
   type_a (TOGGLE_TODO 7) = ''TOGGLE_TODO'' \<and>
   todo_fields dup_heap (Ref 1) = Some (7, ''a'', False) \<and>
   todo_fields dup_heap (Ref 2) = Some (7, ''b'', True) \<and>
   todo_fields dup_heap (Ref 3) = Some (8, ''c'', False) \<and>
   (\<exists>l' ys hs. todos dup_heap (Ref 4) (TOGGLE_TODO 7) = Inr (l', dup_heap @ hs) \<and>
      todo_list (dup_heap @ hs) l' ys \<and> length ys = 3 \<and>
      lookup dup_heap (ys ! 0) = None \<and>
      todo_fields (dup_heap @ hs) (ys ! 0) = Some (7, ''a'', True) \<and>
      lookup dup_heap (ys ! 1) = None \<and>
      todo_fields (dup_heap @ hs) (ys ! 1) = Some (7, ''b'', False) \<and>
      ys ! 2 = Ref 3)"
proof -
  have t: "type_a (TOGGLE_TODO 7) = ''TOGGLE_TODO''" and i: "id_a (TOGGLE_TODO 7) = 7"
    by (simp_all add: TOGGLE_TODO_def)
  have f: "todo_fields dup_heap (Ref 1) = Some (7, ''a'', False)"
    "todo_fields dup_heap (Ref 2) = Some (7, ''b'', True)"
    "todo_fields dup_heap (Ref 3) = Some (8, ''c'', False)"
    by (simp_all add: todo_fields_def lookup_def dup_heap_def)
  from toggle_negates_every_match [OF dup_todo_list t] obtain l' ys hs where
    r: "todos dup_heap (Ref 4) (TOGGLE_TODO 7) = Inr (l', dup_heap @ hs)"
    and tl: "todo_list (dup_heap @ hs) l' ys" and len: "length ys = 3"
    and tg: "\<forall>j<3. \<forall>i x c. todo_fields dup_heap ([Ref 1, Ref 2, Ref 3] ! j) = Some (i, x, c) \<longrightarrow>
              (if i = 7
               then lookup dup_heap (ys ! j) = None \<and>
                    todo_fields (dup_heap @ hs) (ys ! j) = Some (i, x, \<not> c)
               else ys ! j = [Ref 1, Ref 2, Ref 3] ! j)"
    unfolding i by auto
  from tg [rule_format, of 0 7 "''a''" False] f have "lookup dup_heap (ys ! 0) = None \<and>
      todo_fields (dup_heap @ hs) (ys ! 0) = Some (7, ''a'', True)"
    by simp
  moreover from tg [rule_format, of 1 7 "''b''" True] f have "lookup dup_heap (ys ! 1) = None \<and>
      todo_fields (dup_heap @ hs) (ys ! 1) = Some (7, ''b'', False)"
    by simp
  moreover from tg [rule_format, of 2 8 "''c''" False] f have "ys ! 2 = Ref 3"
    by simp
  ultimately show ?thesis
    using dup_todo_list t f r tl len by blast
qed


section \<open>Properties of the selector\<close>

lemma completed_is_todo: "is_todo h t \<Longrightarrow> \<exists>c. completed h t = Inr c"
  by (auto simp: is_todo_def todo_fields_def completed_def split: option.splits obj.splits)

lemma filter_seq_completed:
  "list_all (is_todo h) xs \<Longrightarrow>
     filter_seq (completed h) xs = Inr (filter (\<lambda>t. completed h t = Inr True) xs)"
proof (induction xs)
  case Nil
  then show ?case by simp
next
  case (Cons t ts)
  from Cons.prems obtain c where "completed h t = Inr c"
    using completed_is_todo by auto
  with Cons show ?case by simp
qed

lemma filter_seq_not_completed:
  "list_all (is_todo h) xs \<Longrightarrow>
     filter_seq (not_completed h) xs = Inr (filter (\<lambda>t. completed h t = Inr False) xs)"
proof (induction xs)
  case Nil
  then show ?case by simp
next
  case (Cons t ts)
  from Cons.prems obtain c where "completed h t = Inr c"
    using completed_is_todo by auto
  with Cons show ?case by (simp add: not_completed_def)
qed

lemma List_from_todo_list:
  assumes "lookup h EMPTY_LIST = Some (ListOf [])" and "list_all (is_todo h) ys"
  shows "\<exists>l' hs. List_from h ys = (l', h @ hs) \<and> todo_list (h @ hs) l' ys"
proof (cases "ys = []")
  case True
  with assms(1) have "List_from h ys = (EMPTY_LIST, h @ []) \<and> todo_list (h @ []) EMPTY_LIST ys"
    by (simp add: List_from_def todo_list_def)
  then show ?thesis by blast
next
  case False
  let ?hs = "[ListOf ys]"
  from False have "List_from h ys = (Ref (length h), h @ ?hs)"
    by (simp add: List_from_def alloc_def)
  moreover have "todo_list (h @ ?hs) (Ref (length h)) ys"
    using assms by (auto simp: todo_list_def lookup_new lookup_append list_all_iff
        intro: is_todo_append)
  ultimately show ?thesis by blast
qed

lemma getVisibleTodos_completed:
  assumes "todo_list h l xs"
  shows "\<exists>l' hs. getVisibleTodos h l ''SHOW_COMPLETED'' = Inr (l', h @ hs) \<and>
           todo_list (h @ hs) l' (filter (\<lambda>t. completed h t = Inr True) xs)"
proof -
  let ?ys = "filter (\<lambda>t. completed h t = Inr True) xs"
  from assms have e: "lookup h EMPTY_LIST = Some (ListOf [])"
    and l: "lookup h l = Some (ListOf xs)" and ok: "list_all (is_todo h) xs"
    by (simp_all add: todo_list_def)
  from ok have "list_all (is_todo h) ?ys"
    by (simp add: list_all_iff)
  from List_from_todo_list [OF e this] obtain l' hs where
    "List_from h ?ys = (l', h @ hs)" and "todo_list (h @ hs) l' ?ys"
    by blast
  moreover have "getVisibleTodos h l ''SHOW_COMPLETED'' = Inr (List_from h ?ys)"
    using l ok by (simp add: getVisibleTodos_def List_filter_def filter_seq_completed)
  ultimately show ?thesis by auto
qed

lemma getVisibleTodos_active:
  assumes "todo_list h l xs"
  shows "\<exists>l' hs. getVisibleTodos h l ''SHOW_ACTIVE'' = Inr (l', h @ hs) \<and>
           todo_list (h @ hs) l' (filter (\<lambda>t. completed h t = Inr False) xs)"
proof -
  let ?ys = "filter (\<lambda>t. completed h t = Inr False) xs"
  from assms have e: "lookup h EMPTY_LIST = Some (ListOf [])"
    and l: "lookup h l = Some (ListOf xs)" and ok: "list_all (is_todo h) xs"
    by (simp_all add: todo_list_def)
  from ok have "list_all (is_todo h) ?ys"
    by (simp add: list_all_iff)
  from List_from_todo_list [OF e this] obtain l' hs where
    "List_from h ?ys = (l', h @ hs)" and "todo_list (h @ hs) l' ?ys"
    by blast
  moreover have "getVisibleTodos h l ''SHOW_ACTIVE'' = Inr (List_from h ?ys)"
    using l ok by (simp add: getVisibleTodos_def List_filter_def filter_seq_not_completed)
  ultimately show ?thesis by auto
qed

text \<open>
  Claim C4. For every list of todo records, \<^verbatim>\<open>getVisibleTodos\<close> with \<^verbatim>\<open>SHOW_ALL\<close>
  returns the reference it was given and allocates nothing; with \<^verbatim>\<open>SHOW_ACTIVE\<close> it
  returns a list of exactly the elements whose record has \<^verbatim>\<open>completed = false\<close>, in their
  order in the input; with \<^verbatim>\<open>SHOW_COMPLETED\<close>, of exactly those whose record has
  \<^verbatim>\<open>completed = true\<close>, in their order in the input.
\<close>

theorem selector_branches:
  assumes "todo_list h l xs"
  shows "getVisibleTodos h l ''SHOW_ALL'' = Inr (l, h) \<and>
         (\<exists>l' hs. getVisibleTodos h l ''SHOW_ACTIVE'' = Inr (l', h @ hs) \<and>
            todo_list (h @ hs) l' (filter (\<lambda>t. completed h t = Inr False) xs)) \<and>
         (\<exists>l' hs. getVisibleTodos h l ''SHOW_COMPLETED'' = Inr (l', h @ hs) \<and>
            todo_list (h @ hs) l' (filter (\<lambda>t. completed h t = Inr True) xs))"
  using getVisibleTodos_active [OF assms] getVisibleTodos_completed [OF assms]
  by (simp add: getVisibleTodos_def)

theorem selector_branches_witness:
  "todo_list ex_heap (Ref 3) [Ref 1, Ref 2] \<and>
   getVisibleTodos ex_heap (Ref 3) ''SHOW_ALL'' = Inr (Ref 3, ex_heap) \<and>
   (\<exists>l' hs. getVisibleTodos ex_heap (Ref 3) ''SHOW_ACTIVE'' = Inr (l', ex_heap @ hs) \<and>
      todo_list (ex_heap @ hs) l' [Ref 1]) \<and>
   (\<exists>l' hs. getVisibleTodos ex_heap (Ref 3) ''SHOW_COMPLETED'' = Inr (l', ex_heap @ hs) \<and>
      todo_list (ex_heap @ hs) l' [Ref 2])"
proof -
  have "filter (\<lambda>t. completed ex_heap t = Inr False) [Ref 1, Ref 2] = [Ref 1]"
    and "filter (\<lambda>t. completed ex_heap t = Inr True) [Ref 1, Ref 2] = [Ref 2]"
    by (simp_all add: completed_def lookup_def ex_heap_def)
  with selector_branches [OF ex_todo_list] ex_todo_list show ?thesis
    by simp
qed

text \<open>
  Claim C5. For every filter string other than \<^verbatim>\<open>SHOW_ALL\<close>, \<^verbatim>\<open>SHOW_COMPLETED\<close> and
  \<^verbatim>\<open>SHOW_ACTIVE\<close>, and whatever the todos are, \<^verbatim>\<open>getVisibleTodos\<close> throws an error
  whose message is \<^verbatim>\<open>Unknown filter: \<close> followed by that filter string; for each of the
  three recognized filters and every list of todo records it throws nothing and returns
  a value.
\<close>

theorem unknown_filter_fails:
  "(f \<notin> {''SHOW_ALL'', ''SHOW_COMPLETED'', ''SHOW_ACTIVE''} \<longrightarrow>
      getVisibleTodos h l f = Inl (Error (''Unknown filter: '' @ f))) \<and>
   (f \<in> {''SHOW_ALL'', ''SHOW_COMPLETED'', ''SHOW_ACTIVE''} \<and> todo_list h l xs \<longrightarrow>
      (\<exists>v h'. getVisibleTodos h l f = Inr (v, h')))"
proof (intro conjI impI)
  assume "f \<notin> {''SHOW_ALL'', ''SHOW_COMPLETED'', ''SHOW_ACTIVE''}"
  then show "getVisibleTodos h l f = Inl (Error (''Unknown filter: '' @ f))"
    by (simp add: getVisibleTodos_def)
next
  assume a: "f \<in> {''SHOW_ALL'', ''SHOW_COMPLETED'', ''SHOW_ACTIVE''} \<and> todo_list h l xs"
  then have tl: "todo_list h l xs" by simp
  from a consider "f = ''SHOW_ALL''" | "f = ''SHOW_COMPLETED''" | "f = ''SHOW_ACTIVE''"
    by auto
  then show "\<exists>v h'. getVisibleTodos h l f = Inr (v, h')"
  proof cases
    case 1
    then show ?thesis by (simp add: getVisibleTodos_def)
  next
    case 2
    with getVisibleTodos_completed [OF tl] show ?thesis by blast
  next
    case 3
    with getVisibleTodos_active [OF tl] show ?thesis by blast
  qed
qed

theorem unknown_filter_fails_witness:
  "getVisibleTodos ex_heap (Ref 3) ''BOGUS'' = Inl (Error ''Unknown filter: BOGUS'') \<and>
   todo_list ex_heap (Ref 3) [Ref 1, Ref 2] \<and>
   (\<exists>v h'. getVisibleTodos ex_heap (Ref 3) ''SHOW_ACTIVE'' = Inr (v, h'))"
  using unknown_filter_fails [of "''BOGUS''" ex_heap "Ref 3" "[Ref 1, Ref 2]"]
    unknown_filter_fails [of "''SHOW_ACTIVE''" ex_heap "Ref 3" "[Ref 1, Ref 2]"] ex_todo_list
  by simp

text \<open>
  Claim C6. For every list of todo records, the results of \<^verbatim>\<open>getVisibleTodos\<close> with
  \<^verbatim>\<open>SHOW_ACTIVE\<close> and with \<^verbatim>\<open>SHOW_COMPLETED\<close> have no element in common, and the
  input is an interleaving of the two that keeps the order of each: together they hold
  every element of the input, as often as the input does.
\<close>

theorem filter_partition:
  assumes "todo_list h l xs"
  shows "\<exists>la ha ys lc hc zs.
           getVisibleTodos h l ''SHOW_ACTIVE'' = Inr (la, ha) \<and>
           lookup ha la = Some (ListOf ys) \<and>
           getVisibleTodos h l ''SHOW_COMPLETED'' = Inr (lc, hc) \<and>
           lookup hc lc = Some (ListOf zs) \<and>
           xs \<in> shuffles ys zs \<and> set ys \<inter> set zs = {} \<and>
           length ys + length zs = length xs"
proof -
  let ?P = "\<lambda>t. completed h t = Inr False"
  let ?Q = "\<lambda>t. completed h t = Inr True"
  from getVisibleTodos_active [OF assms] obtain la hs where
    a: "getVisibleTodos h l ''SHOW_ACTIVE'' = Inr (la, h @ hs)"
    and la: "lookup (h @ hs) la = Some (ListOf (filter ?P xs))"
    by (auto simp: todo_list_def)
  from getVisibleTodos_completed [OF assms] obtain lc hs' where
    c: "getVisibleTodos h l ''SHOW_COMPLETED'' = Inr (lc, h @ hs')"
    and lc: "lookup (h @ hs') lc = Some (ListOf (filter ?Q xs))"
    by (auto simp: todo_list_def)
  from assms have ok: "list_all (is_todo h) xs"
    by (simp add: todo_list_def)
  have "?Q t \<longleftrightarrow> \<not> ?P t" if "t \<in> set xs" for t
    using that ok completed_is_todo [of h t] by (auto simp: list_all_iff)
  then have q: "filter ?Q xs = filter (\<lambda>t. \<not> ?P t) xs"
    by (auto intro: filter_cong)
  have sh: "xs \<in> shuffles (filter ?P xs) (filter ?Q xs)"
    unfolding q by (rule partition_in_shuffles)
  have dj: "set (filter ?P xs) \<inter> set (filter ?Q xs) = {}"
    by auto
  have "length (filter ?P xs) + length (filter ?Q xs) = length xs"
    unfolding q by (rule sum_length_filter_compl)
  with a la c lc sh dj show ?thesis
    by blast
qed

theorem filter_partition_witness:
  "todo_list ex_heap (Ref 3) [Ref 1, Ref 2] \<and>
   (\<exists>la ha ys lc hc zs.
      getVisibleTodos ex_heap (Ref 3) ''SHOW_ACTIVE'' = Inr (la, ha) \<and>
      lookup ha la = Some (ListOf ys) \<and>
      getVisibleTodos ex_heap (Ref 3) ''SHOW_COMPLETED'' = Inr (lc, hc) \<and>
      lookup hc lc = Some (ListOf zs) \<and>
      [Ref 1, Ref 2] \<in> shuffles ys zs \<and> set ys \<inter> set zs = {} \<and>
      length ys + length zs = length [Ref 1, Ref 2 :: val])"
  using filter_partition [OF ex_todo_list] ex_todo_list
  by simp


section \<open>The render gate after a toggle\<close>

lemma redraw_positions:
  assumes "length ys = length xs"
  shows "length (filter (\<lambda>(p, n). shouldRedraw p n) (zip (TodoList oc xs) (TodoList oc ys)))
           = card {j. j < length xs \<and> ys ! j \<noteq> xs ! j}"
proof -
  let ?zs = "zip (TodoList oc xs) (TodoList oc ys)"
  let ?P = "\<lambda>(p, n). shouldRedraw p n"
  have len: "length ?zs = length xs"
    using assms by (simp add: TodoList_def)
  have nth: "?P (?zs ! j) \<longleftrightarrow> ys ! j \<noteq> xs ! j" if "j < length xs" for j
  proof -
    from that assms have "?zs ! j =
        (\<lparr>onClick = oc, todo_p = xs ! j\<rparr>, \<lparr>onClick = oc, todo_p = ys ! j\<rparr>)"
      by (simp add: TodoList_def)
    then show ?thesis
      by (auto simp add: shouldRedraw_def)
  qed
  have "length (filter ?P ?zs) = card {j. j < length ?zs \<and> ?P (?zs ! j)}"
    by (rule length_filter_conv_card)
  also have "{j. j < length ?zs \<and> ?P (?zs ! j)} = {j. j < length xs \<and> ys ! j \<noteq> xs ! j}"
  proof (rule Collect_cong)
    fix j
    show "(j < length ?zs \<and> ?P (?zs ! j)) \<longleftrightarrow> (j < length xs \<and> ys ! j \<noteq> xs ! j)"
      using nth [of j] len by (cases "j < length xs") simp_all
  qed
  finally show ?thesis .
qed


text \<open>
  Claim C3. For every list of \<open>N\<close> todo records with pairwise distinct ids and every
  \<^verbatim>\<open>TOGGLE_TODO\<close> whose id is that of one of them, the reducer of the list returns a list
  of the same length, and the render gate of \<^verbatim>\<open>Todo\<close>, asked at each position with the
  props \<^verbatim>\<open>TodoList\<close> made from the old list and those it makes from the new one, says
  redraw at exactly one position and not at the other \<open>N - 1\<close>.
\<close>

theorem single_item_redraw:
  assumes "todo_list h l xs" and "type_a a = ''TOGGLE_TODO''"
    and "distinct (map (todo_id h) xs)" and "Some (id_a a) \<in> todo_id h ` set xs"
  shows "\<exists>l' ys hs. todos h l a = Inr (l', h @ hs) \<and> todo_list (h @ hs) l' ys \<and>
           length ys = length xs \<and>
           length (filter (\<lambda>(p, n). shouldRedraw p n)
                     (zip (TodoList oc xs) (TodoList oc ys))) = 1 \<and>
           length (filter (\<lambda>(p, n). \<not> shouldRedraw p n)
                     (zip (TodoList oc xs) (TodoList oc ys))) = length xs - 1"
proof -
  from todos_toggle [OF assms(2,1)] obtain l' ys hs where
    r: "todos h l a = Inr (l', h @ hs)" and tl: "todo_list (h @ hs) l' ys"
    and len: "length ys = length xs"
    and tg: "\<forall>j<length xs. toggled h (h @ hs) (id_a a) (xs ! j) (ys ! j)"
    by blast
  from assms(4) obtain k where k: "k < length xs"
    and m: "todo_id h (xs ! k) = Some (id_a a)"
    by (auto simp: in_set_conv_nth)
  have o: "todo_id h (xs ! j) \<noteq> Some (id_a a)" if "j < length xs" "j \<noteq> k" for j
  proof -
    from that k have "(map (todo_id h) xs ! j = map (todo_id h) xs ! k) = (j = k)"
      using nth_eq_iff_index_eq [OF assms(3), of j k] by simp
    with that k m show ?thesis by simp
  qed
  from m obtain x c where f: "todo_fields h (xs ! k) = Some (id_a a, x, c)"
    by (auto simp: todo_id_Some)
  from tg k f have "ys ! k \<noteq> xs ! k"
    using toggled_match by blast
  moreover have "ys ! j = xs ! j" if "j < length xs" "j \<noteq> k" for j
    using that tg o toggled_other [of h "h @ hs" "id_a a" "xs ! j" "ys ! j"] by simp
  ultimately have "{j. j < length xs \<and> ys ! j \<noteq> xs ! j} = {k}"
    using k by auto
  then have one: "length (filter (\<lambda>(p, n). shouldRedraw p n)
      (zip (TodoList oc xs) (TodoList oc ys))) = 1"
    by (simp add: redraw_positions [OF len])
  let ?zs = "zip (TodoList oc xs) (TodoList oc ys)"
  have "filter (\<lambda>(p, n). \<not> shouldRedraw p n) ?zs
      = filter (\<lambda>z. \<not> (case z of (p, n) \<Rightarrow> shouldRedraw p n)) ?zs"
    by (rule filter_cong) auto
  with sum_length_filter_compl [of "\<lambda>(p, n). shouldRedraw p n" ?zs]
  have "length (filter (\<lambda>(p, n). shouldRedraw p n) ?zs)
      + length (filter (\<lambda>(p, n). \<not> shouldRedraw p n) ?zs) = length ?zs"
    by (simp only:)
  with one len have "length (filter (\<lambda>(p, n). \<not> shouldRedraw p n) ?zs) = length xs - 1"
    by (simp add: TodoList_def)
  with r tl len one show ?thesis
    by blast
qed

theorem single_item_redraw_witness:
  "todo_list ex_heap (Ref 3) [Ref 1, Ref 2] \<and>
   type_a (TOGGLE_TODO 1) = ''TOGGLE_TODO'' \<and>
   distinct (map (todo_id ex_heap) [Ref 1, Ref 2]) \<and>
   Some (id_a (TOGGLE_TODO 1)) \<in> todo_id ex_heap ` set [Ref 1, Ref 2] \<and>
   (\<exists>l' ys hs. todos ex_heap (Ref 3) (TOGGLE_TODO 1) = Inr (l', ex_heap @ hs) \<and>
      todo_list (ex_heap @ hs) l' ys \<and> length ys = length [Ref 1, Ref 2 :: val] \<and>
      length (filter (\<lambda>(p, n). shouldRedraw p n)
                (zip (TodoList Undefined [Ref 1, Ref 2]) (TodoList Undefined ys))) = 1 \<and>
      length (filter (\<lambda>(p, n). \<not> shouldRedraw p n)
                (zip (TodoList Undefined [Ref 1, Ref 2]) (TodoList Undefined ys)))
        = length [Ref 1, Ref 2 :: val] - 1)"
proof -
  have t: "type_a (TOGGLE_TODO 1) = ''TOGGLE_TODO''"
    by (simp add: TOGGLE_TODO_def)
  have d: "distinct (map (todo_id ex_heap) [Ref 1, Ref 2])"
    by (simp add: todo_id_def todo_fields_def lookup_def ex_heap_def)
  have m: "Some (id_a (TOGGLE_TODO 1)) \<in> todo_id ex_heap ` set [Ref 1, Ref 2]"
    by (simp add: todo_id_def todo_fields_def lookup_def ex_heap_def TOGGLE_TODO_def)
  show ?thesis
    using single_item_redraw [OF ex_todo_list t d m, of Undefined] ex_todo_list t d m
    by blast
qed

end
